theory Spec2Isabelle
  imports Main "HOL-Library.Sublist"
begin

section \<open>The two icon constants\<close>

text \<open>
  The script \<^verbatim>\<open>fix-icons.py\<close> rewrites the HTML files of one directory. Text is
  modelled as \<^typ>\<open>string\<close>, a list of characters, and the two module constants are
  copied character by character. The characters of the model are those of one byte; the
  pattern, the two constants and the four trigger words are all ASCII.
\<close>

definition CHECKMARK :: string where
  "CHECKMARK = ''M9 12.75L11.25 15 15 9.75M21 12a9 9 0 1 1-18 0 9 9 0 0 1 18 0z''"

definition ALERT :: string where
  "ALERT = ''M12 9v3.75m9-.75a9 9 0 1 1-18 0 9 9 0 0 1 18 0zm-9 3.75h.008v.008H12v-.008z''"

section \<open>Regular expressions as the pattern uses them\<close>

text \<open>
  The pattern of the script is a sequence of literal texts and greedy repetitions of a
  negated one-character class, in three capture groups. \<open>Lit l\<close> is the literal \<open>l\<close>;
  \<open>NotChar c n\<close> is \<^verbatim>\<open>[^c]{n,}\<close>, so \<^verbatim>\<open>[^c]*\<close> is \<open>NotChar c 0\<close>.
\<close>

datatype item = Lit string | NotChar char nat

text \<open>The first alternative that succeeds, in the order the alternatives are tried.\<close>

fun first_some :: "('a \<Rightarrow> 'b option) \<Rightarrow> 'a list \<Rightarrow> 'b option" where
  "first_some f [] = None"
| "first_some f (x # xs) = (case f x of Some y \<Rightarrow> Some y | None \<Rightarrow> first_some f xs)"

text \<open>How many characters a repetition of \<^verbatim>\<open>[^c]\<close> can take at most at the start of \<open>s\<close>.\<close>

definition run :: "char \<Rightarrow> string \<Rightarrow> nat" where
  "run c s = length (takeWhile (\<lambda>x. x \<noteq> c) s)"

text \<open>
  The backtracking matcher of \<^verbatim>\<open>re\<close>, anchored at the start of \<open>s\<close>: a literal
  must be a prefix of the text; a greedy repetition first takes the longest run it can
  and gives characters back one at a time, down to its minimum, until the rest of the
  pattern matches. The result is the text each item took and the text after the match.
\<close>

primrec match_items :: "item list \<Rightarrow> string \<Rightarrow> (string list \<times> string) option" where
  "match_items [] s = Some ([], s)"
| "match_items (i # its) s =
     (case i of
        Lit l \<Rightarrow>
          if prefix l s
          then map_option (\<lambda>(ps, r). (l # ps, r)) (match_items its (drop (length l) s))
          else None
      | NotChar c n \<Rightarrow>
          first_some
            (\<lambda>k. map_option (\<lambda>(ps, r). (take k s # ps, r)) (match_items its (drop k s)))
            (rev [n ..< Suc (run c s)]))"

text \<open>
  A match object of a pattern with three groups: \<^verbatim>\<open>match.group(1)\<close>,
  \<^verbatim>\<open>match.group(2)\<close> and \<^verbatim>\<open>match.group(3)\<close>.
\<close>

type_synonym match = "string \<times> string \<times> string"

definition re_match :: "item list \<times> item list \<times> item list \<Rightarrow> string \<Rightarrow> (match \<times> string) option" where
  "re_match p s =
     (case p of (a, b, c) \<Rightarrow>
        (case match_items (a @ b @ c) s of
           None \<Rightarrow> None
         | Some (ps, r) \<Rightarrow>
             Some ((concat (take (length a) ps),
                    concat (take (length b) (drop (length a) ps)),
                    concat (drop (length a + length b) ps)), r)))"

text \<open>
  The pattern
  \<^verbatim>\<open>(<h2><svg[^>]*><path[^>]*d=")([^"]{80,})(" /></svg>)\<close>.
\<close>

definition pattern :: "item list \<times> item list \<times> item list" where
  \<open>pattern =
     ([Lit ''<h2><svg'', NotChar CHR ''>'' 0, Lit ''><path'', NotChar CHR ''>'' 0, Lit ''d="''],
      [NotChar CHR ''"'' 80],
      [Lit ''" /></svg>''])\<close>

section \<open>The replacement function\<close>

text \<open>\<^verbatim>\<open>str.lower\<close> on the characters of ASCII.\<close>

definition lower_char :: "char \<Rightarrow> char" where
  "lower_char c =
     (let n = (of_char c :: nat) in if 65 \<le> n \<and> n \<le> 90 then char_of (n + 32) else c)"

definition lower :: "string \<Rightarrow> string" where
  "lower s = map lower_char s"

text \<open>\<^verbatim>\<open>word in text\<close>: \<open>word\<close> occurs in \<open>text\<close> as a contiguous piece.\<close>

primrec contains :: "string \<Rightarrow> string \<Rightarrow> bool" where
  "contains w [] = (w = [])"
| "contains w (c # cs) = (prefix w (c # cs) \<or> contains w cs)"

definition replace_complex_icon :: "match \<Rightarrow> string" where
  "replace_complex_icon m =
     (case m of (svg_start, path_data, svg_end) \<Rightarrow>
        let new_path =
          (if list_ex (\<lambda>word. contains word (lower svg_end))
                [''disadvantage'', ''challenge'', ''pitfall'', ''bottleneck'']
           then ALERT else CHECKMARK)
        in svg_start @ new_path @ svg_end)"

section \<open>Facts about the matcher\<close>

lemma first_some_None_iff:
  "first_some f xs = None \<longleftrightarrow> (\<forall>x \<in> set xs. f x = None)"
  by (induction xs) (auto split: option.splits)

lemma first_some_exists:
  "x \<in> set xs \<Longrightarrow> f x \<noteq> None \<Longrightarrow> first_some f xs \<noteq> None"
  by (simp add: first_some_None_iff) blast

lemma run_le_length: "run c s \<le> length s"
  by (simp add: run_def length_takeWhile_le)

lemma run_Cons: "run c (x # s) = (if x = c then 0 else Suc (run c s))"
  by (simp add: run_def)

lemma run_append_notin: "c \<notin> set p \<Longrightarrow> run c (p @ r) = length p + run c r"
  by (induction p) (auto simp: run_Cons)

lemma run_take: "k \<le> run c s \<Longrightarrow> c \<notin> set (take k s)"
proof (induction s arbitrary: k)
  case Nil
  then show ?case by simp
next
  case (Cons x s)
  then show ?case by (cases k) (auto simp: run_Cons split: if_splits)
qed

text \<open>What an item may take.\<close>

fun item_ok :: "item \<Rightarrow> string \<Rightarrow> bool" where
  "item_ok (Lit l) p = (p = l)"
| "item_ok (NotChar c n) p = (c \<notin> set p \<and> n \<le> length p)"

lemma first_some_SomeD:
  "first_some f xs = Some y \<Longrightarrow> \<exists>x \<in> set xs. f x = Some y"
  by (induction xs) (auto split: option.splits)

lemma match_items_sound:
  "match_items its s = Some (ps, r) \<Longrightarrow> s = concat ps @ r \<and> list_all2 item_ok its ps"
proof (induction its arbitrary: s ps r)
  case Nil
  then show ?case by simp
next
  case (Cons i its)
  show ?case
  proof (cases i)
    case (Lit l)
    from Cons.prems Lit obtain ps' where pre: "prefix l s"
      and m: "match_items its (drop (length l) s) = Some (ps', r)" and ps: "ps = l # ps'"
      by (auto split: if_splits)
    from Cons.IH [OF m] have "drop (length l) s = concat ps' @ r" "list_all2 item_ok its ps'"
      by simp_all
    moreover from pre have "s = l @ drop (length l) s"
      by (auto simp: prefix_def)
    ultimately show ?thesis using Lit ps by simp
  next
    case (NotChar c n)
    from Cons.prems NotChar obtain k ps' where k: "n \<le> k" "k \<le> run c s"
      and m: "match_items its (drop k s) = Some (ps', r)" and ps: "ps = take k s # ps'"
      by (auto dest!: first_some_SomeD)
    from Cons.IH [OF m] have "drop k s = concat ps' @ r" "list_all2 item_ok its ps'"
      by simp_all
    moreover have "c \<notin> set (take k s)" using k(2) by (rule run_take)
    moreover have "length (take k s) = k" using k(2) run_le_length [of c s] by simp
    ultimately show ?thesis using NotChar ps k(1)
      by (simp) (metis append_take_drop_id)
  qed
qed

lemma match_items_complete:
  "list_all2 item_ok its ps \<Longrightarrow> match_items its (concat ps @ r) \<noteq> None"
proof (induction its arbitrary: ps)
  case Nil
  then show ?case by simp
next
  case (Cons i its)
  from Cons.prems obtain p ps' where ps: "ps = p # ps'" and ok: "item_ok i p"
    and rest: "list_all2 item_ok its ps'"
    by (auto simp: list_all2_Cons1)
  from Cons.IH [OF rest] obtain y where y: "match_items its (concat ps' @ r) = Some y"
    by auto
  show ?case
  proof (cases i)
    case (Lit l)
    with ok ps y show ?thesis by simp
  next
    case (NotChar c n)
    with ok have c: "c \<notin> set p" and n: "n \<le> length p" by simp_all
    let ?s = "concat ps @ r"
    have "length p \<le> run c ?s" using c ps by (simp add: run_append_notin)
    with n have "length p \<in> set (rev [n ..< Suc (run c ?s)])" by auto
    moreover have "map_option (\<lambda>(qs, r). (take (length p) ?s # qs, r))
                     (match_items its (drop (length p) ?s)) \<noteq> None"
      using y ps by simp
    ultimately have "first_some
            (\<lambda>k. map_option (\<lambda>(qs, r). (take k ?s # qs, r)) (match_items its (drop k ?s)))
            (rev [n ..< Suc (run c ?s)]) \<noteq> None"
      by (rule first_some_exists)
    with NotChar show ?thesis by simp
  qed
qed

text \<open>A match of the pattern: its three groups, and the text it is made of.\<close>

lemma re_match_SomeD:
  assumes "re_match (a, b, c) s = Some ((g1, g2, g3), r)"
  shows "\<exists>ps. match_items (a @ b @ c) s = Some (ps, r)
           \<and> g1 = concat (take (length a) ps)
           \<and> g2 = concat (take (length b) (drop (length a) ps))
           \<and> g3 = concat (drop (length a + length b) ps)"
  using assms unfolding re_match_def by (simp split: option.splits prod.splits)

lemma re_match_pattern_sound:
  assumes "re_match pattern s = Some ((g1, g2, g3), r)"
  shows \<open>\<exists>A B. g1 = ''<h2><svg'' @ A @ ''><path'' @ B @ ''d="''
            \<and> CHR ''>'' \<notin> set A \<and> CHR ''>'' \<notin> set B
            \<and> CHR ''"'' \<notin> set g2 \<and> 80 \<le> length g2
            \<and> g3 = ''" /></svg>'' \<and> s = g1 @ g2 @ g3 @ r\<close>
proof -
  define a where \<open>a = [Lit ''<h2><svg'', NotChar CHR ''>'' 0, Lit ''><path'', NotChar CHR ''>'' 0, Lit ''d="'']\<close>
  define b where \<open>b = [NotChar CHR ''"'' 80]\<close>
  define c where \<open>c = [Lit ''" /></svg>'']\<close>
  have p: "pattern = (a, b, c)" by (simp add: pattern_def a_def b_def c_def)
  from re_match_SomeD [OF assms [unfolded p]]
  obtain ps where m: "match_items (a @ b @ c) s = Some (ps, r)"
    and g: "g1 = concat (take (length a) ps)" "g2 = concat (take (length b) (drop (length a) ps))"
      "g3 = concat (drop (length a + length b) ps)"
    by blast
  from match_items_sound [OF m] have s: "s = concat ps @ r"
    and ok: "list_all2 item_ok (a @ b @ c) ps"
    by simp_all
  from ok obtain p1 p2 p3 p4 p5 p6 p7 where ps: "ps = [p1, p2, p3, p4, p5, p6, p7]"
    and oks: "item_ok (Lit ''<h2><svg'') p1" "item_ok (NotChar CHR ''>'' 0) p2"
       "item_ok (Lit ''><path'') p3" "item_ok (NotChar CHR ''>'' 0) p4"
       \<open>item_ok (Lit ''d="'') p5\<close> \<open>item_ok (NotChar CHR ''"'' 80) p6\<close>
       \<open>item_ok (Lit ''" /></svg>'') p7\<close>
    unfolding a_def b_def c_def by (auto simp: list_all2_Cons1)
  have l: "length a = 5" "length b = 1" by (simp_all add: a_def b_def)
  show ?thesis
    using g s oks unfolding ps l by (intro exI [of _ p2] exI [of _ p4]) simp
qed

lemma re_match_pattern_shorter:
  assumes "re_match pattern s = Some (m, r)"
  shows "length r < length s"
proof -
  obtain g1 g2 g3 where "m = (g1, g2, g3)" by (cases m) auto
  with assms re_match_pattern_sound [of s g1 g2 g3 r] show ?thesis by auto
qed

section \<open>Substitution and search\<close>

text \<open>
  \<^verbatim>\<open>re.sub(pattern, repl, s)\<close> scans \<open>s\<close> from the left. Where the pattern matches,
  the match is replaced by what \<open>repl\<close> returns for it and the scan goes on after the
  match; where it does not, the character is kept and the scan moves one character on.
  The pattern has no anchor and no look-behind, so whether it matches at a position
  depends on the text from that position on only. A match of this pattern is never empty
  (\<open>re_match_pattern_shorter\<close> above), so the scan ends.
\<close>

function re_sub :: "(match \<Rightarrow> string) \<Rightarrow> string \<Rightarrow> string" where
  "re_sub repl s =
     (case re_match pattern s of
        Some (m, r) \<Rightarrow> repl m @ re_sub repl r
      | None \<Rightarrow> (case s of [] \<Rightarrow> [] | c # cs \<Rightarrow> c # re_sub repl cs))"
  by pat_completeness auto
termination
  by (relation "measure (\<lambda>(repl, s). length s)") (auto dest: re_match_pattern_shorter)

declare re_sub.simps [simp del]

text \<open>
  \<^verbatim>\<open>re.findall(pattern, s)\<close>: the groups of the matches the same scan finds, in order.
\<close>

function re_findall :: "string \<Rightarrow> match list" where
  "re_findall s =
     (case re_match pattern s of
        Some (m, r) \<Rightarrow> m # re_findall r
      | None \<Rightarrow> (case s of [] \<Rightarrow> [] | c # cs \<Rightarrow> re_findall cs))"
  by pat_completeness auto
termination
  by (relation "measure length") (auto dest: re_match_pattern_shorter)

declare re_findall.simps [simp del]

section \<open>The script\<close>

text \<open>
  The state of a run: the text of each file of the directory by name, the names that
  cannot be written, the calls of \<^verbatim>\<open>write_text\<close> made so far (name and text
  written), and the lines printed so far. Reading a file that is not there and writing
  one that cannot be written raise, and nothing in the script catches it.
\<close>

record state =
  files :: "string \<rightharpoonup> string"
  readonly :: "string set"
  writes :: "(string \<times> string) list"
  stdout :: "string list"

datatype error = ReadError string | WriteError string

definition read_text :: "string \<Rightarrow> state \<Rightarrow> error + string" where
  "read_text name st = (case files st name of None \<Rightarrow> Inl (ReadError name) | Some c \<Rightarrow> Inr c)"

definition write_text :: "string \<Rightarrow> string \<Rightarrow> state \<Rightarrow> error + state" where
  "write_text name content st =
     (if name \<in> readonly st then Inl (WriteError name)
      else Inr (st\<lparr>files := (files st)(name \<mapsto> content),
                    writes := writes st @ [(name, content)]\<rparr>))"

definition print :: "string \<Rightarrow> state \<Rightarrow> state" where
  "print line st = st\<lparr>stdout := stdout st @ [line]\<rparr>"

text \<open>The decimal digits of a number, as an f-string writes it.\<close>

fun str :: "nat \<Rightarrow> string" where
  "str n = (if n < 10 then [char_of (48 + n)] else str (n div 10) @ [char_of (48 + n mod 10)])"

declare str.simps [simp del]

text \<open>The body of the loop, for the file \<open>name\<close>.\<close>

definition process_file :: "string \<Rightarrow> state \<Rightarrow> error + state" where
  "process_file name st =
     (case read_text name st of
        Inl e \<Rightarrow> Inl e
      | Inr content \<Rightarrow>
          let original = content;
              content' = re_sub replace_complex_icon content
          in if content' \<noteq> original
             then (case write_text name content' st of
                     Inl e \<Rightarrow> Inl e
                   | Inr st1 \<Rightarrow>
                       let changes = length (re_findall original)
                       in Inr (print (''Fixed '' @ str changes @ '' complex icons in '' @ name) st1))
             else Inr (print (''No changes needed in '' @ name) st))"

text \<open>
  The loop over the files that \<^verbatim>\<open>glob('*.html')\<close> yields, in the order it yields
  them, and the last line printed.
\<close>

fun process_files :: "string list \<Rightarrow> state \<Rightarrow> error + state" where
  "process_files [] st = Inr st"
| "process_files (name # names) st =
     (case process_file name st of Inl e \<Rightarrow> Inl e | Inr st' \<Rightarrow> process_files names st')"

definition main :: "string list \<Rightarrow> state \<Rightarrow> error + state" where
  "main names st =
     (case process_files names st of Inl e \<Rightarrow> Inl e | Inr st' \<Rightarrow> Inr (print ''Done!'' st'))"

section \<open>Notions for the statements\<close>

text \<open>When the pattern matches at the start of a text, said without the matcher.\<close>

definition matches_at_start :: "string \<Rightarrow> bool" where
  \<open>matches_at_start s \<longleftrightarrow>
     (\<exists>A B X r. s = ''<h2><svg'' @ A @ ''><path'' @ B @ ''d="'' @ X @ ''" /></svg>'' @ r
        \<and> CHR ''>'' \<notin> set A \<and> CHR ''>'' \<notin> set B \<and> CHR ''"'' \<notin> set X \<and> 80 \<le> length X)\<close>

text \<open>
  The substitution with a count of the replacements it makes, as \<^verbatim>\<open>re.subn\<close> returns
  it: the scan of \<open>re_sub\<close>, with one more for each match replaced.
\<close>

function re_subn :: "(match \<Rightarrow> string) \<Rightarrow> string \<Rightarrow> string \<times> nat" where
  "re_subn repl s =
     (case re_match pattern s of
        Some (m, r) \<Rightarrow> (case re_subn repl r of (t, n) \<Rightarrow> (repl m @ t, Suc n))
      | None \<Rightarrow>
          (case s of
             [] \<Rightarrow> ([], 0)
           | c # cs \<Rightarrow> (case re_subn repl cs of (t, n) \<Rightarrow> (c # t, n))))"
  by pat_completeness auto
termination
  by (relation "measure (\<lambda>(repl, s). length s)") (auto dest: re_match_pattern_shorter)

declare re_subn.simps [simp del]

text \<open>
  Texts and matches put together in turn: a text, a match, a text, and so on.
\<close>

fun weave :: "string list \<Rightarrow> string list \<Rightarrow> string" where
  "weave [] ms = concat ms"
| "weave (u # us) [] = u @ concat us"
| "weave (u # us) (m # ms) = u @ m @ weave us ms"

section \<open>The replacement at a match\<close>

lemma suffix_has_no_trigger:
  \<open>\<not> list_ex (\<lambda>word. contains word (lower ''" /></svg>''))
        [''disadvantage'', ''challenge'', ''pitfall'', ''bottleneck'']\<close>
  by code_simp

lemma replace_complex_icon_match:
  assumes "re_match pattern s = Some ((g1, g2, g3), r)"
  shows "replace_complex_icon (g1, g2, g3) = g1 @ CHECKMARK @ g3"
proof -
  from re_match_pattern_sound [OF assms] have \<open>g3 = ''" /></svg>''\<close> by blast
  then show ?thesis
    using suffix_has_no_trigger by (simp only: replace_complex_icon_def prod.case Let_def if_False)
qed

lemma process_file_changed:
  assumes "files st name = Some c" "re_sub replace_complex_icon c \<noteq> c" "name \<notin> readonly st"
  shows "process_file name st =
    Inr (st\<lparr>files := (files st)(name \<mapsto> re_sub replace_complex_icon c),
            writes := writes st @ [(name, re_sub replace_complex_icon c)],
            stdout := stdout st @ [''Fixed '' @ str (length (re_findall c)) @ '' complex icons in '' @ name]\<rparr>)"
  using assms by (simp add: process_file_def read_text_def write_text_def print_def Let_def)

lemma process_file_unchanged:
  assumes "files st name = Some c" "re_sub replace_complex_icon c = c"
  shows "process_file name st = Inr (st\<lparr>stdout := stdout st @ [''No changes needed in '' @ name]\<rparr>)"
  using assms by (simp add: process_file_def read_text_def print_def Let_def)

section \<open>The scan\<close>

lemma re_match_pattern_complete:
  assumes \<open>s = ''<h2><svg'' @ A @ ''><path'' @ B @ ''d="'' @ X @ ''" /></svg>'' @ r\<close>
    and "CHR ''>'' \<notin> set A" "CHR ''>'' \<notin> set B" \<open>CHR ''"'' \<notin> set X\<close> "80 \<le> length X"
  shows "re_match pattern s \<noteq> None"
proof -
  define a where \<open>a = [Lit ''<h2><svg'', NotChar CHR ''>'' 0, Lit ''><path'', NotChar CHR ''>'' 0, Lit ''d="'']\<close>
  define b where \<open>b = [NotChar CHR ''"'' 80]\<close>
  define c where \<open>c = [Lit ''" /></svg>'']\<close>
  have p: "pattern = (a, b, c)" by (simp add: pattern_def a_def b_def c_def)
  let ?ps = \<open>[''<h2><svg'', A, ''><path'', B, ''d="'', X, ''" /></svg>'']\<close>
  have "list_all2 item_ok (a @ b @ c) ?ps"
    using assms(2-) by (simp add: a_def b_def c_def)
  then have "match_items (a @ b @ c) (concat ?ps @ r) \<noteq> None"
    by (rule match_items_complete)
  moreover have "concat ?ps @ r = s" unfolding assms(1) by simp
  ultimately show ?thesis
    unfolding p re_match_def by (auto split: option.splits)
qed

lemma re_match_pattern_iff:
  "re_match pattern s \<noteq> None \<longleftrightarrow> matches_at_start s"
proof
  assume "re_match pattern s \<noteq> None"
  then obtain g1 g2 g3 r where "re_match pattern s = Some ((g1, g2, g3), r)"
    by (cases "re_match pattern s") auto
  from re_match_pattern_sound [OF this] show "matches_at_start s"
    unfolding matches_at_start_def by (metis append.assoc)
next
  assume "matches_at_start s"
  then show "re_match pattern s \<noteq> None"
    unfolding matches_at_start_def using re_match_pattern_complete by blast
qed

lemma re_match_prefix:
  assumes "re_match pattern s = Some (m, r)"
  shows "prefix ''<h2><svg'' s"
proof -
  obtain g1 g2 g3 where "m = (g1, g2, g3)" by (cases m) auto
  with assms re_match_pattern_sound [of s g1 g2 g3 r] show ?thesis
    by (auto simp: prefix_def)
qed

lemma re_match_Nil: "re_match pattern [] = None"
  using re_match_prefix [of "[]"] by (cases "re_match pattern []") auto

text \<open>The scan, one step at a time.\<close>

lemma re_sub_Nil: "re_sub repl [] = []"
  by (subst re_sub.simps) (simp add: re_match_Nil)

lemma re_sub_match:
  "re_match pattern s = Some (m, r) \<Longrightarrow> re_sub repl s = repl m @ re_sub repl r"
  by (subst re_sub.simps) simp

lemma re_sub_skip:
  "re_match pattern (c # cs) = None \<Longrightarrow> re_sub repl (c # cs) = c # re_sub repl cs"
  by (subst re_sub.simps) simp

lemma re_findall_Nil: "re_findall [] = []"
  by (subst re_findall.simps) (simp add: re_match_Nil)

lemma re_findall_match:
  "re_match pattern s = Some (m, r) \<Longrightarrow> re_findall s = m # re_findall r"
  by (subst re_findall.simps) simp

lemma re_findall_skip:
  "re_match pattern (c # cs) = None \<Longrightarrow> re_findall (c # cs) = re_findall cs"
  by (subst re_findall.simps) simp

text \<open>Occurrences of a word.\<close>

lemma contains_prefix: "prefix w s \<Longrightarrow> contains w s"
  by (cases s) auto

lemma contains_appendI: "contains w (a @ w @ b)"
  by (induction a) (simp_all add: contains_prefix)

lemma re_match_contains:
  assumes "re_match pattern s = Some (m, r)"
  shows \<open>contains ''<h2><svg'' s \<and> contains ''d="'' s \<and> contains ''" /></svg>'' s\<close>
proof -
  obtain g1 g2 g3 where m: "m = (g1, g2, g3)" by (cases m) auto
  from re_match_pattern_sound [OF assms [unfolded m]] obtain A B
    where g1: \<open>g1 = ''<h2><svg'' @ A @ ''><path'' @ B @ ''d="''\<close>
      and g3: \<open>g3 = ''" /></svg>''\<close> and s: "s = g1 @ g2 @ g3 @ r"
    by blast
  have \<open>contains ''<h2><svg'' ([] @ ''<h2><svg'' @ (A @ ''><path'' @ B @ ''d="'' @ g2 @ g3 @ r))\<close>
    by (rule contains_appendI)
  moreover have \<open>contains ''d="'' ((''<h2><svg'' @ A @ ''><path'' @ B) @ ''d="'' @ (g2 @ g3 @ r))\<close>
    by (rule contains_appendI)
  moreover have \<open>contains ''" /></svg>'' ((g1 @ g2) @ ''" /></svg>'' @ r)\<close>
    by (rule contains_appendI)
  ultimately show ?thesis
    unfolding s g1 g3 by (simp only: append_assoc append_Nil)
qed

text \<open>A text in which a word that every match holds does not occur is left as it is.\<close>

lemma no_occurrence_unchanged:
  assumes w: "\<And>t m r. re_match pattern t = Some (m, r) \<Longrightarrow> contains w t"
  shows "\<not> contains w s \<Longrightarrow> re_sub repl s = s \<and> re_findall s = []"
proof (induction s)
  case Nil
  show ?case by (simp add: re_sub_Nil re_findall_Nil)
next
  case (Cons c cs)
  from Cons.prems have "re_match pattern (c # cs) = None"
    using w [of "c # cs"] by (cases "re_match pattern (c # cs)") auto
  moreover from Cons.prems have "\<not> contains w cs" by simp
  ultimately show ?case
    using Cons.IH by (simp add: re_sub_skip re_findall_skip)
qed

lemma re_findall_Nil_unchanged: "re_findall s = [] \<Longrightarrow> re_sub repl s = s"
proof (induction s)
  case Nil
  show ?case by (simp add: re_sub_Nil)
next
  case (Cons c cs)
  show ?case
  proof (cases "re_match pattern (c # cs)")
    case None
    with Cons show ?thesis by (simp add: re_sub_skip re_findall_skip)
  next
    case (Some a)
    then obtain m r where "re_match pattern (c # cs) = Some (m, r)" by (cases a) auto
    with Cons.prems show ?thesis by (simp add: re_findall_match)
  qed
qed

lemma re_subn_eq: "re_subn repl s = (re_sub repl s, length (re_findall s))"
proof (induction "length s" arbitrary: s rule: less_induct)
  case less
  show ?case
  proof (cases "re_match pattern s")
    case None
    show ?thesis
    proof (cases s)
      case Nil
      then show ?thesis
        by (subst re_subn.simps) (simp add: re_match_Nil re_sub_Nil re_findall_Nil)
    next
      case (Cons c cs)
      with None less [of cs] show ?thesis
        by (subst re_subn.simps) (simp add: re_sub_skip re_findall_skip)
    qed
  next
    case (Some a)
    then obtain m r where m: "re_match pattern s = Some (m, r)" by (cases a) auto
    with less [of r] re_match_pattern_shorter [OF m] show ?thesis
      by (subst re_subn.simps) (simp add: re_sub_match re_findall_match)
  qed
qed

lemma changed_has_match: "re_sub repl s \<noteq> s \<Longrightarrow> 1 \<le> length (re_findall s)"
  using re_findall_Nil_unchanged [of s repl] by (cases "re_findall s") auto

lemma weave_Cons_hd: "weave ((c # u) # us) ms = c # weave (u # us) ms"
  by (cases ms) simp_all

lemma scan_frame:
  "\<exists>us. length us = Suc (length (re_findall s))
       \<and> s = weave us (map (\<lambda>(a, b, c). a @ b @ c) (re_findall s))
       \<and> re_sub repl s = weave us (map repl (re_findall s))"
proof (induction "length s" arbitrary: s rule: less_induct)
  case less
  show ?case
  proof (cases "re_match pattern s")
    case None
    show ?thesis
    proof (cases s)
      case Nil
      then show ?thesis
        by (intro exI [of _ "[[]]"]) (simp add: re_sub_Nil re_findall_Nil)
    next
      case (Cons c cs)
      have "length cs < length s" using Cons by simp
      from less [OF this] obtain us where us: "length us = Suc (length (re_findall cs))"
        "cs = weave us (map (\<lambda>(a, b, c). a @ b @ c) (re_findall cs))"
        "re_sub repl cs = weave us (map repl (re_findall cs))"
        by blast
      from us(1) obtain u us' where u: "us = u # us'" by (cases us) auto
      have eq: "re_findall s = re_findall cs" "re_sub repl s = c # re_sub repl cs"
        using None Cons by (simp_all add: re_sub_skip re_findall_skip)
      show ?thesis
        unfolding eq
        using us unfolding u Cons
        by (intro exI [of _ "(c # u) # us'"]) (simp add: weave_Cons_hd)
    qed
  next
    case (Some a)
    then obtain g1 g2 g3 r where m: "re_match pattern s = Some ((g1, g2, g3), r)"
      by (cases a) auto
    from less [OF re_match_pattern_shorter [OF m]] obtain us where us: "length us = Suc (length (re_findall r))"
      "r = weave us (map (\<lambda>(a, b, c). a @ b @ c) (re_findall r))"
      "re_sub repl r = weave us (map repl (re_findall r))"
      by blast
    from re_match_pattern_sound [OF m] have s: "s = g1 @ g2 @ g3 @ r" by blast
    have eq: "re_findall s = (g1, g2, g3) # re_findall r"
      "re_sub repl s = repl (g1, g2, g3) @ re_sub repl r"
      using m by (simp_all add: re_sub_match re_findall_match)
    show ?thesis
      unfolding eq
      using us s
      by (intro exI [of _ "[] # us"]) simp
  qed
qed

section \<open>The new text has no match\<close>

lemma append_eq_longer:
  assumes "xs @ a = ys @ b" "length ys < length xs"
  shows "\<exists>x t. xs = ys @ x # t \<and> b = x # t @ a"
proof -
  from assms(1) obtain us where "(xs = ys @ us \<and> us @ a = b) \<or> (xs @ us = ys \<and> a = us @ b)"
    by (auto simp: append_eq_append_conv2)
  with assms(2) have "xs = ys @ us" "us @ a = b" by auto
  with assms(2) show ?thesis by (cases us) auto
qed

lemma split_at_first:
  assumes "xs @ q # ys = X @ q # zs" "q \<notin> set X"
  shows "(xs = X \<and> ys = zs) \<or> (\<exists>t. xs = X @ q # t \<and> zs = t @ q # ys)"
proof -
  consider "length xs = length X" | "length X < length xs" | "length xs < length X"
    by linarith
  then show ?thesis
  proof cases
    case 1
    with assms(1) show ?thesis by simp
  next
    case 2
    from append_eq_longer [OF assms(1) 2] show ?thesis by auto
  next
    case 3
    from append_eq_longer [OF assms(1) [symmetric] 3] assms(2) show ?thesis by auto
  qed
qed

lemma free_prefix:
  assumes "xs @ q # ys = e @ r" "q \<notin> set e"
  shows "\<exists>t. xs = e @ t"
proof (cases "length e \<le> length xs")
  case True
  with assms(1) show ?thesis
    by (metis append_eq_append_conv_if append_take_drop_id)
next
  case False
  then have "length xs < length e" by simp
  from append_eq_longer [OF assms(1) [symmetric] this] assms(2) show ?thesis by auto
qed

lemma count_list_notin: "c \<notin> set xs \<Longrightarrow> count_list xs c = 0"
  by (induction xs) auto

lemma checkmark_no_quote: \<open>CHR ''"'' \<notin> set CHECKMARK\<close>
  by (simp add: CHECKMARK_def)

lemma checkmark_length: "length CHECKMARK = 62"
  by (simp add: CHECKMARK_def)

lemma matches_at_start_append: "matches_at_start u \<Longrightarrow> matches_at_start (u @ v)"
  unfolding matches_at_start_def by (metis append.assoc)

text \<open>
  A match that begins before a path already replaced ends before that path: the new
  path is too short to be the path of a match, and no text of a match can lie across it.
\<close>

lemma match_ends_before_checkmark:
  assumes \<open>matches_at_start (u @ CHR ''"'' # CHECKMARK @ ''" /></svg>'' @ w)\<close>
  shows "matches_at_start u"
proof -
  from assms obtain A B X r where
    s: \<open>u @ CHR ''"'' # CHECKMARK @ ''" /></svg>'' @ w
        = ''<h2><svg'' @ A @ ''><path'' @ B @ ''d="'' @ X @ ''" /></svg>'' @ r\<close>
    and A: "CHR ''>'' \<notin> set A" and B: "CHR ''>'' \<notin> set B"
    and X: \<open>CHR ''"'' \<notin> set X\<close> and len: "80 \<le> length X"
    unfolding matches_at_start_def by blast
  define p0 where "p0 = ''<h2><svg'' @ A @ ''><path'' @ B @ ''d=''"
  define e where "e = '' /></svg>''"
  have e: \<open>CHR ''"'' \<notin> set e\<close> by (simp add: e_def)
  have eq: \<open>u @ CHR ''"'' # (CHECKMARK @ CHR ''"'' # e @ w) = p0 @ CHR ''"'' # (X @ CHR ''"'' # e @ r)\<close>
    using s by (simp add: p0_def e_def)
  consider (before) "length p0 < length u" | (same) "length p0 = length u"
    | (after) "length u < length p0"
    by linarith
  then show ?thesis
  proof cases
    case before
    from append_eq_longer [OF eq before] obtain t where u: \<open>u = p0 @ CHR ''"'' # t\<close>
      and rest: \<open>t @ CHR ''"'' # (CHECKMARK @ CHR ''"'' # e @ w) = X @ CHR ''"'' # (e @ r)\<close>
      by auto
    from split_at_first [OF rest X]
    consider "CHECKMARK @ CHR ''\"'' # e @ w = e @ r"
      | t' where \<open>t = X @ CHR ''"'' # t'\<close> \<open>e @ r = t' @ CHR ''"'' # (CHECKMARK @ CHR ''"'' # e @ w)\<close>
      by blast
    then show ?thesis
    proof cases
      case 1
      then show ?thesis by (simp add: CHECKMARK_def e_def)
    next
      case 2
      from free_prefix [OF 2(2) [symmetric] e] obtain t'' where "t' = e @ t''" by blast
      with u 2(1) have \<open>u = ''<h2><svg'' @ A @ ''><path'' @ B @ ''d="'' @ X @ ''" /></svg>'' @ t''\<close>
        by (simp add: p0_def e_def)
      with A B X len show ?thesis unfolding matches_at_start_def by blast
    qed
  next
    case same
    with eq have \<open>CHECKMARK @ CHR ''"'' # e @ w = X @ CHR ''"'' # e @ r\<close> by simp
    from split_at_first [OF this X] have "CHECKMARK = X \<or> (\<exists>t. CHECKMARK = X @ CHR ''\"'' # t)"
      by blast
    moreover have "CHECKMARK \<noteq> X @ CHR ''\"'' # t" for t
      using checkmark_no_quote by (metis in_set_conv_decomp)
    ultimately have "CHECKMARK = X" by blast
    with len checkmark_length show ?thesis by simp
  next
    case after
    from append_eq_longer [OF eq [symmetric] after] obtain t where p: \<open>p0 = u @ CHR ''"'' # t\<close>
      and rest: \<open>t @ CHR ''"'' # (X @ CHR ''"'' # e @ r) = CHECKMARK @ CHR ''"'' # (e @ w)\<close>
      by auto
    from split_at_first [OF rest checkmark_no_quote]
    consider "t = CHECKMARK"
      | t' where \<open>t = CHECKMARK @ CHR ''"'' # t'\<close> \<open>e @ w = t' @ CHR ''"'' # (X @ CHR ''"'' # e @ r)\<close>
      by blast
    then show ?thesis
    proof cases
      case 1
      with p have "last p0 = last CHECKMARK" by (simp add: CHECKMARK_def)
      then show ?thesis by (simp add: p0_def CHECKMARK_def)
    next
      case 2
      from free_prefix [OF 2(2) [symmetric] e] obtain t'' where "t' = e @ t''" by blast
      with p 2(1) have p': \<open>p0 = (u @ CHR ''"'' # CHECKMARK) @ (CHR ''"'' # e @ t'')\<close>
        by simp
      have "drop 4 p0 = drop 4 (u @ CHR ''\"'' # CHECKMARK) @ (CHR ''\"'' # e @ t'')"
        unfolding p' by (subst drop_append) (simp add: checkmark_length)
      then have "2 \<le> count_list (drop 4 p0) CHR ''>''"
        by (simp add: e_def)
      moreover have "drop 4 p0 = ''<svg'' @ A @ ''><path'' @ B @ ''d=''"
        by (simp add: p0_def)
      then have "count_list (drop 4 p0) CHR ''>'' = 1"
        using A B by (simp add: count_list_notin)
      ultimately show ?thesis by simp
    qed
  qed
qed

lemma matches_at_start_count:
  assumes "matches_at_start v"
  shows "4 \<le> count_list v CHR ''>''"
proof -
  from assms obtain A B X r where
    \<open>v = ''<h2><svg'' @ A @ ''><path'' @ B @ ''d="'' @ X @ ''" /></svg>'' @ r\<close>
    unfolding matches_at_start_def by blast
  then show ?thesis by simp
qed

lemma re_match_None_iff: "re_match pattern s = None \<longleftrightarrow> \<not> matches_at_start s"
  using re_match_pattern_iff [of s] by blast

lemma re_sub_skip_other:
  assumes "x \<noteq> CHR ''<''"
  shows "re_sub repl (x # rest) = x # re_sub repl rest"
proof -
  have "re_match pattern (x # rest) = None"
    using assms re_match_prefix [of "x # rest"] by (cases "re_match pattern (x # rest)") auto
  then show ?thesis by (rule re_sub_skip)
qed

lemma re_sub_skip_tag:
  assumes "y \<noteq> CHR ''h''"
  shows "re_sub repl (CHR ''<'' # y # rest) = CHR ''<'' # re_sub repl (y # rest)"
proof -
  have "re_match pattern (CHR ''<'' # y # rest) = None"
    using assms re_match_prefix [of "CHR ''<'' # y # rest"]
    by (cases "re_match pattern (CHR ''<'' # y # rest)") auto
  then show ?thesis by (rule re_sub_skip)
qed

text \<open>The scan finds no match that begins in a path already replaced or in what closes it.\<close>

lemma re_sub_over_checkmark:
  \<open>re_sub repl (CHR ''"'' # CHECKMARK @ ''" /></svg>'' @ w)
     = CHR ''"'' # CHECKMARK @ ''" /></svg>'' @ re_sub repl w\<close>
  by (simp add: CHECKMARK_def re_sub_skip_other re_sub_skip_tag)

text \<open>Nor one that begins in what stands before the path.\<close>

lemma re_sub_over_start:
  assumes "count_list v CHR ''>'' \<le> 3"
  shows \<open>re_sub repl (v @ CHR ''"'' # CHECKMARK @ ''" /></svg>'' @ w)
     = v @ CHR ''"'' # CHECKMARK @ ''" /></svg>'' @ re_sub repl w\<close>
  using assms
proof (induction v)
  case Nil
  show ?case using re_sub_over_checkmark [of repl w] by simp
next
  case (Cons x v)
  have "\<not> matches_at_start ((x # v) @ CHR ''\"'' # CHECKMARK @ ''\" /></svg>'' @ w)"
  proof
    assume "matches_at_start ((x # v) @ CHR ''\"'' # CHECKMARK @ ''\" /></svg>'' @ w)"
    then have "matches_at_start (x # v)" by (rule match_ends_before_checkmark)
    from matches_at_start_count [OF this] Cons.prems show False by simp
  qed
  then have "re_match pattern (x # (v @ CHR ''\"'' # CHECKMARK @ ''\" /></svg>'' @ w)) = None"
    by (simp add: re_match_None_iff)
  from re_sub_skip [OF this] have "re_sub repl ((x # v) @ CHR ''\"'' # CHECKMARK @ ''\" /></svg>'' @ w)
    = x # re_sub repl (v @ CHR ''\"'' # CHECKMARK @ ''\" /></svg>'' @ w)"
    by simp
  moreover from Cons.prems have "count_list v CHR ''>'' \<le> 3" by (simp split: if_splits)
  ultimately show ?case using Cons.IH by simp
qed

text \<open>A match in the new text, begun in text the scan has passed, is a match in the old text.\<close>

lemma match_in_new_text:
  "matches_at_start (pre @ re_sub replace_complex_icon cs) \<Longrightarrow> matches_at_start (pre @ cs)"
proof (induction "length cs" arbitrary: cs pre rule: less_induct)
  case less
  show ?case
  proof (cases "re_match pattern cs")
    case None
    show ?thesis
    proof (cases cs)
      case Nil
      with less.prems show ?thesis by (simp add: re_sub_Nil)
    next
      case (Cons x xs)
      with None have "re_sub replace_complex_icon cs = x # re_sub replace_complex_icon xs"
        by (simp add: re_sub_skip)
      with less.prems have "matches_at_start ((pre @ [x]) @ re_sub replace_complex_icon xs)"
        by simp
      moreover have "length xs < length cs" using Cons by simp
      ultimately have "matches_at_start ((pre @ [x]) @ xs)" by (rule less.hyps [rotated])
      with Cons show ?thesis by simp
    qed
  next
    case (Some a)
    then obtain g1 g2 g3 r where m: "re_match pattern cs = Some ((g1, g2, g3), r)"
      by (cases a) auto
    from re_match_pattern_sound [OF m] obtain A B
      where g1: \<open>g1 = ''<h2><svg'' @ A @ ''><path'' @ B @ ''d="''\<close>
        and g3: \<open>g3 = ''" /></svg>''\<close> and cs: "cs = g1 @ g2 @ g3 @ r"
      by blast
    define v where "v = ''<h2><svg'' @ A @ ''><path'' @ B @ ''d=''"
    have g1': \<open>g1 = v @ [CHR ''"'']\<close> by (simp add: g1 v_def)
    have "re_sub replace_complex_icon cs = g1 @ CHECKMARK @ g3 @ re_sub replace_complex_icon r"
      using m by (simp add: re_sub_match replace_complex_icon_match)
    with less.prems
    have "matches_at_start ((pre @ v @ CHR ''\"'' # CHECKMARK @ ''\" /></svg>'')
            @ re_sub replace_complex_icon r)"
      by (simp add: g1' g3)
    moreover note re_match_pattern_shorter [OF m]
    ultimately have "matches_at_start ((pre @ v @ CHR ''\"'' # CHECKMARK @ ''\" /></svg>'') @ r)"
      by (rule less.hyps [rotated])
    then have "matches_at_start ((pre @ v) @ CHR ''\"'' # CHECKMARK @ ''\" /></svg>'' @ r)"
      by simp
    then have "matches_at_start (pre @ v)" by (rule match_ends_before_checkmark)
    then have "matches_at_start ((pre @ v) @ (CHR ''\"'' # g2 @ g3 @ r))"
      by (rule matches_at_start_append)
    then show ?thesis by (simp add: cs g1')
  qed
qed

lemma re_sub_idem:
  "re_sub replace_complex_icon (re_sub replace_complex_icon s) = re_sub replace_complex_icon s"
proof (induction "length s" arbitrary: s rule: less_induct)
  case less
  show ?case
  proof (cases "re_match pattern s")
    case None
    show ?thesis
    proof (cases s)
      case Nil
      then show ?thesis by (simp add: re_sub_Nil)
    next
      case (Cons x xs)
      with None have step: "re_sub replace_complex_icon s = x # re_sub replace_complex_icon xs"
        by (simp add: re_sub_skip)
      have "\<not> matches_at_start ([x] @ re_sub replace_complex_icon xs)"
      proof
        assume "matches_at_start ([x] @ re_sub replace_complex_icon xs)"
        then have "matches_at_start ([x] @ xs)" by (rule match_in_new_text)
        with None Cons show False by (simp add: re_match_None_iff)
      qed
      then have "re_match pattern (x # re_sub replace_complex_icon xs) = None"
        by (simp add: re_match_None_iff)
      from re_sub_skip [OF this] less [of xs] Cons show ?thesis
        unfolding step by simp
    qed
  next
    case (Some a)
    then obtain g1 g2 g3 r where m: "re_match pattern s = Some ((g1, g2, g3), r)"
      by (cases a) auto
    from re_match_pattern_sound [OF m] obtain A B
      where g1: \<open>g1 = ''<h2><svg'' @ A @ ''><path'' @ B @ ''d="''\<close>
        and A: "CHR ''>'' \<notin> set A" and B: "CHR ''>'' \<notin> set B"
        and g3: \<open>g3 = ''" /></svg>''\<close>
      by blast
    define v where "v = ''<h2><svg'' @ A @ ''><path'' @ B @ ''d=''"
    have g1': \<open>g1 = v @ [CHR ''"'']\<close> by (simp add: g1 v_def)
    have v: "count_list v CHR ''>'' \<le> 3"
      using A B by (simp add: v_def count_list_notin)
    have step: "re_sub replace_complex_icon s
        = v @ CHR ''\"'' # CHECKMARK @ ''\" /></svg>'' @ re_sub replace_complex_icon r"
      using m by (simp add: re_sub_match replace_complex_icon_match g1' g3)
    show ?thesis
      unfolding step re_sub_over_start [OF v]
      using less [OF re_match_pattern_shorter [OF m]] by simp
  qed
qed

text \<open>Each replacement makes the text at least 18 characters shorter.\<close>

lemma re_sub_shorter:
  "length (re_sub replace_complex_icon s) + 18 * length (re_findall s) \<le> length s"
proof (induction "length s" arbitrary: s rule: less_induct)
  case less
  show ?case
  proof (cases "re_match pattern s")
    case None
    show ?thesis
    proof (cases s)
      case Nil
      then show ?thesis by (simp add: re_sub_Nil re_findall_Nil)
    next
      case (Cons x xs)
      with None less [of xs] show ?thesis
        by (simp add: re_sub_skip re_findall_skip)
    qed
  next
    case (Some a)
    then obtain g1 g2 g3 r where m: "re_match pattern s = Some ((g1, g2, g3), r)"
      by (cases a) auto
    from re_match_pattern_sound [OF m] have len: "80 \<le> length g2" and s: "s = g1 @ g2 @ g3 @ r"
      by blast+
    have "length s = length g1 + length g2 + length g3 + length r"
      by (subst s) simp
    with less [OF re_match_pattern_shorter [OF m]] len show ?thesis
      using m by (simp add: re_sub_match re_findall_match replace_complex_icon_match checkmark_length)
  qed
qed

lemma no_match_in_new_text: "re_findall (re_sub replace_complex_icon s) = []"
proof (rule ccontr)
  assume "re_findall (re_sub replace_complex_icon s) \<noteq> []"
  then have "1 \<le> length (re_findall (re_sub replace_complex_icon s))"
    by (cases "re_findall (re_sub replace_complex_icon s)") simp_all
  with re_sub_shorter [of "re_sub replace_complex_icon s"]
  have "length (re_sub replace_complex_icon (re_sub replace_complex_icon s))
          < length (re_sub replace_complex_icon s)"
    by linarith
  then show False by (simp add: re_sub_idem)
qed

section \<open>The claims\<close>

lemma process_file_InrD:
  assumes "files st name = Some c" "process_file name st = Inr st'"
  shows "st' =
    (if re_sub replace_complex_icon c \<noteq> c
     then st\<lparr>files := (files st)(name \<mapsto> re_sub replace_complex_icon c),
             writes := writes st @ [(name, re_sub replace_complex_icon c)],
             stdout := stdout st @ [''Fixed '' @ str (length (re_findall c)) @ '' complex icons in '' @ name]\<rparr>
     else st\<lparr>stdout := stdout st @ [''No changes needed in '' @ name]\<rparr>)"
proof (cases "re_sub replace_complex_icon c = c")
  case True
  with assms process_file_unchanged [OF assms(1) True] show ?thesis by simp
next
  case False
  have "name \<notin> readonly st"
  proof
    assume "name \<in> readonly st"
    with assms(1) False have "process_file name st = Inl (WriteError name)"
      by (simp add: process_file_def read_text_def write_text_def Let_def)
    with assms(2) show False by simp
  qed
  from process_file_changed [OF assms(1) False this] assms(2) False show ?thesis by simp
qed

lemma process_file_files:
  assumes "files st name = Some c" "process_file name st = Inr st'"
  shows "files st' = (files st)(name \<mapsto> re_sub replace_complex_icon c)"
proof (cases "re_sub replace_complex_icon c = c")
  case True
  with process_file_InrD [OF assms] assms(1) show ?thesis
    by (simp add: fun_upd_idem)
next
  case False
  with process_file_InrD [OF assms] show ?thesis by simp
qed

lemma process_file_Inr_read:
  assumes "process_file name st = Inr st'"
  shows "\<exists>c. files st name = Some c"
  using assms by (cases "files st name") (simp_all add: process_file_def read_text_def)

lemma process_files_files:
  assumes "process_files names st = Inr st'" "distinct names" "files st n = Some c"
  shows "files st' n = Some (if n \<in> set names then re_sub replace_complex_icon c else c)"
  using assms
proof (induction names arbitrary: st c)
  case Nil
  then show ?case by simp
next
  case (Cons x xs)
  from Cons.prems(1) obtain st1 where x: "process_file x st = Inr st1"
    and xs: "process_files xs st1 = Inr st'"
    by (auto split: sum.splits)
  from process_file_Inr_read [OF x] obtain d where d: "files st x = Some d" by blast
  note f = process_file_files [OF d x]
  from Cons.prems(2) have dist: "distinct xs" "x \<notin> set xs" by simp_all
  show ?case
  proof (cases "n = x")
    case True
    with d Cons.prems(3) have "d = c" by simp
    with f True have "files st1 n = Some (re_sub replace_complex_icon c)" by simp
    from Cons.IH [OF xs dist(1) this] dist(2) True show ?thesis by simp
  next
    case False
    with f Cons.prems(3) have "files st1 n = Some c" by simp
    from Cons.IH [OF xs dist(1) this] False show ?thesis by simp
  qed
qed

text \<open>
  C5 (reported count). When the text of a file changes, the line printed for it is
  \<^verbatim>\<open>Fixed N complex icons in\<close> and the name, where \<open>N\<close> is the number of matches
  \<^verbatim>\<open>re.findall\<close> finds in the original text. That number is the number of replacements
  the substitution made, and it is at least 1.
\<close>

theorem reported_count_is_number_of_replacements:
  assumes "files st name = Some c" "re_sub replace_complex_icon c \<noteq> c"
    and "process_file name st = Inr st'"
  shows "stdout st' = stdout st @ [''Fixed '' @ str (length (re_findall c)) @ '' complex icons in '' @ name]
    \<and> length (re_findall c) = snd (re_subn replace_complex_icon c)
    \<and> fst (re_subn replace_complex_icon c) = re_sub replace_complex_icon c
    \<and> 1 \<le> length (re_findall c)"
  using process_file_InrD [OF assms(1,3)] assms(2) changed_has_match [OF assms(2)]
  by (simp add: re_subn_eq)

text \<open>
  C6 (no spurious writes). For a file that is processed, \<^verbatim>\<open>write_text\<close> is called
  exactly when the new text differs from the text read, and then once, with the new text.
  When the two are equal, and so whenever the text has no match, nothing is written, the
  files stay as they are and the line printed is \<^verbatim>\<open>No changes needed in\<close> and the name.
\<close>

theorem write_iff_content_differs:
  assumes "files st name = Some c" "process_file name st = Inr st'"
  shows "(writes st' \<noteq> writes st \<longleftrightarrow> re_sub replace_complex_icon c \<noteq> c)
    \<and> (re_sub replace_complex_icon c \<noteq> c \<longrightarrow>
          writes st' = writes st @ [(name, re_sub replace_complex_icon c)]
          \<and> files st' = (files st)(name \<mapsto> re_sub replace_complex_icon c))
    \<and> (re_sub replace_complex_icon c = c \<longrightarrow>
          writes st' = writes st \<and> files st' = files st
          \<and> stdout st' = stdout st @ [''No changes needed in '' @ name])
    \<and> (re_findall c = [] \<longrightarrow> re_sub replace_complex_icon c = c)"
  using process_file_InrD [OF assms] re_findall_Nil_unchanged [of c replace_complex_icon]
  by simp

text \<open>
  C7 (heading directly before the icon). The pattern matches only at a place where the
  text reads \<^verbatim>\<open><h2><svg\<close>, so a text in which no \<^verbatim>\<open><svg\<close> comes directly after
  \<^verbatim>\<open><h2>\<close> has no match and is left as it is.
\<close>

theorem heading_must_directly_precede_icon:
  "(\<not> prefix ''<h2><svg'' t \<longrightarrow> re_match pattern t = None)
   \<and> (\<not> contains ''<h2><svg'' s \<longrightarrow> re_sub replace_complex_icon s = s \<and> re_findall s = [])"
proof -
  have "re_match pattern t = None" if "\<not> prefix ''<h2><svg'' t"
    using that re_match_prefix [of t] by (cases "re_match pattern t") auto
  moreover have "re_sub replace_complex_icon s = s \<and> re_findall s = []"
    if "\<not> contains ''<h2><svg'' s"
    using that by (rule no_occurrence_unchanged [rotated]) (simp add: re_match_contains)
  ultimately show ?thesis by blast
qed

text \<open>
  C9 (exact token forms). A match starts with \<^verbatim>\<open><h2><svg\<close>, its first group ends with
  \<^verbatim>\<open>d="\<close> and its third group is \<^verbatim>\<open>" /></svg>\<close>. A text that lacks one of the three
  literal forms (a heading with attributes, a path in single quotes, a self-closing tag
  without the space) has no match and is left as it is.
\<close>

theorem only_exact_token_forms_match:
  \<open>(re_match pattern t = Some ((g1, g2, g3), r) \<longrightarrow>
      prefix ''<h2><svg'' g1 \<and> suffix ''d="'' g1 \<and> g3 = ''" /></svg>'' \<and> t = g1 @ g2 @ g3 @ r)
   \<and> (\<not> contains ''<h2><svg'' s \<or> \<not> contains ''d="'' s \<or> \<not> contains ''" /></svg>'' s \<longrightarrow>
        re_sub replace_complex_icon s = s \<and> re_findall s = [])\<close>
proof -
  have \<open>prefix ''<h2><svg'' g1 \<and> suffix ''d="'' g1 \<and> g3 = ''" /></svg>'' \<and> t = g1 @ g2 @ g3 @ r\<close>
    if "re_match pattern t = Some ((g1, g2, g3), r)"
  proof -
    from re_match_pattern_sound [OF that] obtain A B
      where g1: \<open>g1 = ''<h2><svg'' @ A @ ''><path'' @ B @ ''d="''\<close>
        and rest: \<open>g3 = ''" /></svg>''\<close> "t = g1 @ g2 @ g3 @ r"
      by blast
    have "prefix ''<h2><svg'' g1" unfolding g1 by (rule prefixI) (rule refl)
    moreover have \<open>suffix ''d="'' g1\<close>
      unfolding g1 by (rule suffixI [of _ \<open>''<h2><svg'' @ A @ ''><path'' @ B\<close>]) simp
    ultimately show ?thesis using rest by blast
  qed
  moreover have "re_sub replace_complex_icon s = s \<and> re_findall s = []"
    if "\<not> contains w s" \<open>w = ''<h2><svg'' \<or> w = ''d="'' \<or> w = ''" /></svg>''\<close> for w
    using that(1) by (rule no_occurrence_unchanged [rotated]) (use that(2) re_match_contains in blast)
  ultimately show ?thesis by blast
qed

text \<open>
  C8 (frame). The text is the texts outside the matches and the matches, in turn; the
  new text has the same texts outside the matches, and for each match the same first and
  third group, with one of the two icon paths between them in place of the second group.
\<close>

theorem replacement_keeps_prefix_suffix_and_outside_text:
  "\<exists>us ps. length us = Suc (length (re_findall s)) \<and> length ps = length (re_findall s)
      \<and> list_all (\<lambda>p. p = CHECKMARK \<or> p = ALERT) ps
      \<and> s = weave us (map (\<lambda>(svg_start, path_data, svg_end). svg_start @ path_data @ svg_end)
                          (re_findall s))
      \<and> re_sub replace_complex_icon s =
          weave us (map2 (\<lambda>(svg_start, path_data, svg_end) p. svg_start @ p @ svg_end)
                      (re_findall s) ps)"
proof -
  from scan_frame [of s replace_complex_icon] obtain us
    where us: "length us = Suc (length (re_findall s))"
      "s = weave us (map (\<lambda>(a, b, c). a @ b @ c) (re_findall s))"
      "re_sub replace_complex_icon s = weave us (map replace_complex_icon (re_findall s))"
    by blast
  define new_path where "new_path = (\<lambda>(svg_start :: string, path_data :: string, svg_end).
     if list_ex (\<lambda>word. contains word (lower svg_end))
          [''disadvantage'', ''challenge'', ''pitfall'', ''bottleneck'']
     then ALERT else CHECKMARK)"
  let ?ps = "map new_path (re_findall s)"
  have "map replace_complex_icon ms
        = map2 (\<lambda>(svg_start, path_data, svg_end) p. svg_start @ p @ svg_end) ms (map new_path ms)" for ms
    by (induction ms) (auto simp: replace_complex_icon_def new_path_def Let_def)
  moreover have "list_all (\<lambda>p. p = CHECKMARK \<or> p = ALERT) (map new_path ms)" for ms
    by (induction ms) (auto simp: new_path_def)
  ultimately show ?thesis
    using us by (intro exI [of _ us] exI [of _ ?ps]) simp
qed

text \<open>
  C10 (function of the content). Two files with the same text, processed under any two
  names in any two states, get the same new text and the same line but for the name. After
  a run over a list of distinct names, in whatever order, each file holds the substitution
  of its own original text if it was listed, and its original text if not.
\<close>

theorem result_depends_on_content_only:
  "(files st1 n1 = Some c \<and> files st2 n2 = Some c
      \<and> process_file n1 st1 = Inr st1' \<and> process_file n2 st2 = Inr st2' \<longrightarrow>
        files st1' n1 = Some (re_sub replace_complex_icon c)
        \<and> files st2' n2 = Some (re_sub replace_complex_icon c)
        \<and> (\<exists>line. stdout st1' = stdout st1 @ [line @ n1] \<and> stdout st2' = stdout st2 @ [line @ n2]))
   \<and> (process_files names st = Inr st' \<and> distinct names \<and> files st n = Some d \<longrightarrow>
        files st' n = Some (if n \<in> set names then re_sub replace_complex_icon d else d))"
proof -
  have "files st1' n1 = Some (re_sub replace_complex_icon c)
        \<and> files st2' n2 = Some (re_sub replace_complex_icon c)
        \<and> (\<exists>line. stdout st1' = stdout st1 @ [line @ n1] \<and> stdout st2' = stdout st2 @ [line @ n2])"
    if h: "files st1 n1 = Some c" "files st2 n2 = Some c"
      "process_file n1 st1 = Inr st1'" "process_file n2 st2 = Inr st2'"
  proof -
    let ?line = "if re_sub replace_complex_icon c \<noteq> c
       then ''Fixed '' @ str (length (re_findall c)) @ '' complex icons in ''
       else ''No changes needed in ''"
    have "stdout st1' = stdout st1 @ [?line @ n1]"
      using process_file_InrD [OF h(1,3)] by simp
    moreover have "stdout st2' = stdout st2 @ [?line @ n2]"
      using process_file_InrD [OF h(2,4)] by simp
    ultimately show ?thesis
      using process_file_files [OF h(1,3)] process_file_files [OF h(2,4)] by auto
  qed
  then show ?thesis using process_files_files [of names st st' n d] by blast
qed

text \<open>
  C3 (idempotence). Both icon paths are shorter than 80 characters. The new text of a
  file has no match, and the substitution leaves it as it is. So when a file has been
  processed, processing it once more writes nothing and prints
  \<^verbatim>\<open>No changes needed in\<close> and its name.
\<close>

theorem substitution_is_idempotent:
  "length CHECKMARK < 80 \<and> length ALERT < 80
   \<and> re_findall (re_sub replace_complex_icon s) = []
   \<and> re_sub replace_complex_icon (re_sub replace_complex_icon s) = re_sub replace_complex_icon s
   \<and> (files st name = Some c \<and> process_file name st = Inr st' \<longrightarrow>
        process_file name st' = Inr (st'\<lparr>stdout := stdout st' @ [''No changes needed in '' @ name]\<rparr>))"
proof -
  have "process_file name st' = Inr (st'\<lparr>stdout := stdout st' @ [''No changes needed in '' @ name]\<rparr>)"
    if h: "files st name = Some c" "process_file name st = Inr st'"
  proof -
    from process_file_files [OF h] have "files st' name = Some (re_sub replace_complex_icon c)"
      by simp
    then show ?thesis by (rule process_file_unchanged) (rule re_sub_idem)
  qed
  moreover have "length CHECKMARK < 80" "length ALERT < 80"
    by (simp_all add: CHECKMARK_def ALERT_def)
  ultimately show ?thesis
    using re_sub_idem [of s] no_match_in_new_text [of s] by blast
qed

section \<open>Runs on given texts\<close>

lemma pitfall_match:
  \<open>re_match pattern (''<h2><svg><path d="'' @ replicate 81 CHR ''B'' @ ''" /></svg><span>PITFALL</span></h2>'')
    = Some ((''<h2><svg><path d="'', replicate 81 CHR ''B'', ''" /></svg>''), ''<span>PITFALL</span></h2>'')\<close>
  by code_simp




lemma path_of_79:
  \<open>re_sub replace_complex_icon (''<h2><svg><path d="'' @ replicate 79 CHR ''A'' @ ''" /></svg>'')
     = ''<h2><svg><path d="'' @ replicate 79 CHR ''A'' @ ''" /></svg>''\<close>
  by code_simp

lemma path_of_80:
  \<open>re_sub replace_complex_icon (''<h2><svg><path d="'' @ replicate 80 CHR ''A'' @ ''" /></svg>'')
     = ''<h2><svg><path d="'' @ CHECKMARK @ ''" /></svg>''\<close>
  by code_simp

lemma path_of_81:
  \<open>re_sub replace_complex_icon (''<h2><svg><path d="'' @ replicate 81 CHR ''A'' @ ''" /></svg>'')
     = ''<h2><svg><path d="'' @ CHECKMARK @ ''" /></svg>''\<close>
  by code_simp

text \<open>
  C2 (threshold). A path of exactly 80 characters is replaced, as one of 81 is, and one
  of 79 is not: the repetition \<^verbatim>\<open>{80,}\<close> of the pattern accepts 80 characters, where
  the comments of the script speak of paths over 80 characters.
\<close>

theorem path_of_80_characters_is_replaced:
  \<open>re_sub replace_complex_icon (''<h2><svg><path d="'' @ replicate 80 CHR ''A'' @ ''" /></svg>'')
     = ''<h2><svg><path d="'' @ CHECKMARK @ ''" /></svg>''
   \<and> re_sub replace_complex_icon (''<h2><svg><path d="'' @ replicate 81 CHR ''A'' @ ''" /></svg>'')
     = ''<h2><svg><path d="'' @ CHECKMARK @ ''" /></svg>''
   \<and> re_sub replace_complex_icon (''<h2><svg><path d="'' @ replicate 79 CHR ''A'' @ ''" /></svg>'')
     = ''<h2><svg><path d="'' @ replicate 79 CHR ''A'' @ ''" /></svg>''\<close>
  using path_of_80 path_of_81 path_of_79 by blast

lemma scenario_sub:
  \<open>re_sub replace_complex_icon
      (''<h2><svg x="1"><path d="'' @ replicate 85 CHR ''A'' @ ''" /></svg><span>Pitfall</span></h2>'')
    = ''<h2><svg x="1"><path d="'' @ CHECKMARK @ ''" /></svg><span>Pitfall</span></h2>''\<close>
  by code_simp

lemma scenario_differs:
 \<open>re_sub replace_complex_icon
      (''<h2><svg x="1"><path d="'' @ replicate 85 CHR ''A'' @ ''" /></svg><span>Pitfall</span></h2>'') \<noteq>
      (''<h2><svg x="1"><path d="'' @ replicate 85 CHR ''A'' @ ''" /></svg><span>Pitfall</span></h2>'')\<close>
  by code_simp

lemma scenario_findall:
  \<open>length (re_findall
      (''<h2><svg x="1"><path d="'' @ replicate 85 CHR ''A'' @ ''" /></svg><span>Pitfall</span></h2>'')) = 1\<close>
  by code_simp

lemma scenario_line:
  \<open>''Fixed '' @ str (length (re_findall
      (''<h2><svg x="1"><path d="'' @ replicate 85 CHR ''A'' @ ''" /></svg><span>Pitfall</span></h2>'')))
     @ '' complex icons in '' @ ''a.html'' = ''Fixed 1 complex icons in a.html''\<close>
  by code_simp

lemma scenario_run:
  \<open>process_file ''a.html''
      \<lparr>files = [''a.html'' \<mapsto> ''<h2><svg x="1"><path d="'' @ replicate 85 CHR ''A''
                                 @ ''" /></svg><span>Pitfall</span></h2>''],
       readonly = {}, writes = [], stdout = []\<rparr>
    = Inr \<lparr>files = [''a.html'' \<mapsto> ''<h2><svg x="1"><path d="'' @ CHECKMARK
                                 @ ''" /></svg><span>Pitfall</span></h2>''],
           readonly = {},
           writes = [(''a.html'', ''<h2><svg x="1"><path d="'' @ CHECKMARK
                                 @ ''" /></svg><span>Pitfall</span></h2>'')],
           stdout = [''Fixed 1 complex icons in a.html'']\<rparr>\<close>
  by (subst process_file_changed [OF _ scenario_differs])
     (simp_all only: scenario_sub scenario_line state.simps fun_upd_same fun_upd_upd
        empty_iff not_False_eq_True append_Nil)

text \<open>
  C4 (scenario). The file \<^verbatim>\<open>a.html\<close> with a path of 85 characters and the
  word Pitfall in a span after the icon: one icon is reported fixed, and the path written
  is the checkmark, not the alert.
\<close>

theorem scenario_gets_checkmark:
  \<open>main [''a.html'']
      \<lparr>files = [''a.html'' \<mapsto> ''<h2><svg x="1"><path d="'' @ replicate 85 CHR ''A''
                                 @ ''" /></svg><span>Pitfall</span></h2>''],
       readonly = {}, writes = [], stdout = []\<rparr>
    = Inr \<lparr>files = [''a.html'' \<mapsto> ''<h2><svg x="1"><path d="'' @ CHECKMARK
                                 @ ''" /></svg><span>Pitfall</span></h2>''],
           readonly = {},
           writes = [(''a.html'', ''<h2><svg x="1"><path d="'' @ CHECKMARK
                                 @ ''" /></svg><span>Pitfall</span></h2>'')],
           stdout = [''Fixed 1 complex icons in a.html'', ''Done!'']\<rparr>\<close>
proof -
  have "process_files [''a.html'']
      \<lparr>files = [''a.html'' \<mapsto> ''<h2><svg x=\"1\"><path d=\"'' @ replicate 85 CHR ''A''
                                 @ ''\" /></svg><span>Pitfall</span></h2>''],
       readonly = {}, writes = [], stdout = []\<rparr>
    = Inr \<lparr>files = [''a.html'' \<mapsto> ''<h2><svg x=\"1\"><path d=\"'' @ CHECKMARK
                                 @ ''\" /></svg><span>Pitfall</span></h2>''],
           readonly = {},
           writes = [(''a.html'', ''<h2><svg x=\"1\"><path d=\"'' @ CHECKMARK
                                 @ ''\" /></svg><span>Pitfall</span></h2>'')],
           stdout = [''Fixed 1 complex icons in a.html'']\<rparr>"
    by (simp only: process_files.simps scenario_run sum.case)
  then show ?thesis
    unfolding main_def by (simp add: print_def)
qed

theorem reported_count_is_number_of_replacements_witness:
  \<open>files \<lparr>files = [''a.html'' \<mapsto> ''<h2><svg x="1"><path d="'' @ replicate 85 CHR ''A''
                                 @ ''" /></svg><span>Pitfall</span></h2>''],
       readonly = {}, writes = [], stdout = []\<rparr> ''a.html''
     = Some (''<h2><svg x="1"><path d="'' @ replicate 85 CHR ''A'' @ ''" /></svg><span>Pitfall</span></h2>'')
   \<and> re_sub replace_complex_icon
         (''<h2><svg x="1"><path d="'' @ replicate 85 CHR ''A'' @ ''" /></svg><span>Pitfall</span></h2>'')
       \<noteq> ''<h2><svg x="1"><path d="'' @ replicate 85 CHR ''A'' @ ''" /></svg><span>Pitfall</span></h2>''
   \<and> process_file ''a.html''
      \<lparr>files = [''a.html'' \<mapsto> ''<h2><svg x="1"><path d="'' @ replicate 85 CHR ''A''
                                 @ ''" /></svg><span>Pitfall</span></h2>''],
       readonly = {}, writes = [], stdout = []\<rparr>
    = Inr \<lparr>files = [''a.html'' \<mapsto> ''<h2><svg x="1"><path d="'' @ CHECKMARK
                                 @ ''" /></svg><span>Pitfall</span></h2>''],
           readonly = {},
           writes = [(''a.html'', ''<h2><svg x="1"><path d="'' @ CHECKMARK
                                 @ ''" /></svg><span>Pitfall</span></h2>'')],
           stdout = [''Fixed 1 complex icons in a.html'']\<rparr>
   \<and> length (re_findall
         (''<h2><svg x="1"><path d="'' @ replicate 85 CHR ''A'' @ ''" /></svg><span>Pitfall</span></h2>'')) = 1
   \<and> snd (re_subn replace_complex_icon
         (''<h2><svg x="1"><path d="'' @ replicate 85 CHR ''A'' @ ''" /></svg><span>Pitfall</span></h2>'')) = 1\<close>
proof -
  let ?c = \<open>''<h2><svg x="1"><path d="'' @ replicate 85 CHR ''A'' @ ''" /></svg><span>Pitfall</span></h2>''\<close>
  let ?st = "\<lparr>files = [''a.html'' \<mapsto> ?c], readonly = {}, writes = [], stdout = []\<rparr>"
  have f: "files ?st ''a.html'' = Some ?c"
    by (simp only: state.simps fun_upd_same)
  from reported_count_is_number_of_replacements [OF f scenario_differs scenario_run]
  have "length (re_findall ?c) = snd (re_subn replace_complex_icon ?c)" by blast
  with scenario_findall have "snd (re_subn replace_complex_icon ?c) = 1" by (simp only:)
  with f scenario_differs scenario_run scenario_findall show ?thesis by blast
qed

lemma plain_sub:
  "re_sub replace_complex_icon ''<h2>Pitfalls</h2>'' = ''<h2>Pitfalls</h2>''"
  by code_simp

lemma plain_findall: "re_findall ''<h2>Pitfalls</h2>'' = []"
  by code_simp

theorem write_iff_content_differs_witness:
  \<open>files \<lparr>files = [''b.html'' \<mapsto> ''<h2>Pitfalls</h2>''], readonly = {}, writes = [], stdout = []\<rparr>
       ''b.html'' = Some ''<h2>Pitfalls</h2>''
   \<and> process_file ''b.html''
        \<lparr>files = [''b.html'' \<mapsto> ''<h2>Pitfalls</h2>''], readonly = {}, writes = [], stdout = []\<rparr>
       = Inr \<lparr>files = [''b.html'' \<mapsto> ''<h2>Pitfalls</h2>''], readonly = {}, writes = [],
              stdout = [''No changes needed in b.html'']\<rparr>
   \<and> re_findall ''<h2>Pitfalls</h2>'' = []
   \<and> re_sub replace_complex_icon ''<h2>Pitfalls</h2>'' = ''<h2>Pitfalls</h2>''
   \<and> writes \<lparr>files = [''b.html'' \<mapsto> ''<h2>Pitfalls</h2>''], readonly = {}, writes = [],
              stdout = [''No changes needed in b.html'']\<rparr> = []
   \<and> writes \<lparr>files = [''a.html'' \<mapsto> ''<h2><svg x="1"><path d="'' @ CHECKMARK
                                 @ ''" /></svg><span>Pitfall</span></h2>''],
           readonly = {},
           writes = [(''a.html'', ''<h2><svg x="1"><path d="'' @ CHECKMARK
                                 @ ''" /></svg><span>Pitfall</span></h2>'')],
           stdout = [''Fixed 1 complex icons in a.html'']\<rparr>
       \<noteq> writes \<lparr>files = [''a.html'' \<mapsto> ''<h2><svg x="1"><path d="'' @ replicate 85 CHR ''A''
                                 @ ''" /></svg><span>Pitfall</span></h2>''],
       readonly = {}, writes = [], stdout = []\<rparr>\<close>
proof -
  let ?st = "\<lparr>files = [''b.html'' \<mapsto> ''<h2>Pitfalls</h2>''], readonly = {}, writes = [], stdout = []\<rparr>"
  let ?st' = "\<lparr>files = [''b.html'' \<mapsto> ''<h2>Pitfalls</h2>''], readonly = {}, writes = [],
              stdout = [''No changes needed in b.html'']\<rparr>"
  have f: "files ?st ''b.html'' = Some ''<h2>Pitfalls</h2>''" by simp
  have run: "process_file ''b.html'' ?st = Inr ?st'"
    by (subst process_file_unchanged [OF f plain_sub]) simp
  note u = write_iff_content_differs [OF f run]
  let ?c = \<open>''<h2><svg x="1"><path d="'' @ replicate 85 CHR ''A'' @ ''" /></svg><span>Pitfall</span></h2>''\<close>
  have g: "files \<lparr>files = [''a.html'' \<mapsto> ?c], readonly = {}, writes = [], stdout = []\<rparr> ''a.html''
            = Some ?c"
    by (simp only: state.simps fun_upd_same)
  note c = write_iff_content_differs [OF g scenario_run]
  from c scenario_differs have "writes \<lparr>files = [''a.html'' \<mapsto> ''<h2><svg x=\"1\"><path d=\"'' @ CHECKMARK
                                 @ ''\" /></svg><span>Pitfall</span></h2>''],
           readonly = {},
           writes = [(''a.html'', ''<h2><svg x=\"1\"><path d=\"'' @ CHECKMARK
                                 @ ''\" /></svg><span>Pitfall</span></h2>'')],
           stdout = [''Fixed 1 complex icons in a.html'']\<rparr>
       \<noteq> writes \<lparr>files = [''a.html'' \<mapsto> ?c], readonly = {}, writes = [], stdout = []\<rparr>"
    by blast
  moreover from u plain_sub have "writes ?st' = writes ?st" by blast
  then have "writes ?st' = []" by simp
  ultimately show ?thesis using f run plain_findall plain_sub by blast
qed

lemma spaced_no_prefix:
  \<open>\<not> prefix ''<h2><svg'' (''<h2> <svg><path d="'' @ replicate 85 CHR ''A'' @ ''" /></svg>'')\<close>
  by simp

lemma spaced_no_occurrence:
  \<open>\<not> contains ''<h2><svg'' (''<h2> <svg><path d="'' @ replicate 85 CHR ''A'' @ ''" /></svg>'')\<close>
  by code_simp

theorem heading_must_directly_precede_icon_witness:
  \<open>\<not> prefix ''<h2><svg'' (''<h2> <svg><path d="'' @ replicate 85 CHR ''A'' @ ''" /></svg>'')
   \<and> re_match pattern (''<h2> <svg><path d="'' @ replicate 85 CHR ''A'' @ ''" /></svg>'') = None
   \<and> \<not> contains ''<h2><svg'' (''<h2> <svg><path d="'' @ replicate 85 CHR ''A'' @ ''" /></svg>'')
   \<and> re_sub replace_complex_icon (''<h2> <svg><path d="'' @ replicate 85 CHR ''A'' @ ''" /></svg>'')
       = ''<h2> <svg><path d="'' @ replicate 85 CHR ''A'' @ ''" /></svg>''\<close>
  using heading_must_directly_precede_icon
    [of \<open>''<h2> <svg><path d="'' @ replicate 85 CHR ''A'' @ ''" /></svg>''\<close>
        \<open>''<h2> <svg><path d="'' @ replicate 85 CHR ''A'' @ ''" /></svg>''\<close>]
    spaced_no_prefix spaced_no_occurrence
  by blast

lemma attributes_no_occurrence:
  \<open>\<not> contains ''<h2><svg''
       (''<h2 class="x"><svg><path d="'' @ replicate 85 CHR ''A'' @ ''" /></svg>'')\<close>
  by code_simp

lemma single_quotes_no_occurrence:
  \<open>\<not> contains ''d="''
       (''<h2><svg><path d='' @ [CHR 0x27] @ replicate 85 CHR ''A'' @ [CHR 0x27] @ '' /></svg>'')\<close>
  by code_simp

lemma no_space_no_occurrence:
  \<open>\<not> contains ''" /></svg>'' (''<h2><svg><path d="'' @ replicate 85 CHR ''A'' @ ''"/></svg>'')\<close>
  by code_simp

theorem only_exact_token_forms_match_witness:
  \<open>re_match pattern (''<h2><svg><path d="'' @ replicate 81 CHR ''B'' @ ''" /></svg><span>PITFALL</span></h2>'')
    = Some ((''<h2><svg><path d="'', replicate 81 CHR ''B'', ''" /></svg>''), ''<span>PITFALL</span></h2>'')
   \<and> prefix ''<h2><svg'' ''<h2><svg><path d="'' \<and> suffix ''d="'' ''<h2><svg><path d="''
   \<and> \<not> contains ''<h2><svg''
       (''<h2 class="x"><svg><path d="'' @ replicate 85 CHR ''A'' @ ''" /></svg>'')
   \<and> re_sub replace_complex_icon
        (''<h2 class="x"><svg><path d="'' @ replicate 85 CHR ''A'' @ ''" /></svg>'')
       = ''<h2 class="x"><svg><path d="'' @ replicate 85 CHR ''A'' @ ''" /></svg>''
   \<and> \<not> contains ''d="''
       (''<h2><svg><path d='' @ [CHR 0x27] @ replicate 85 CHR ''A'' @ [CHR 0x27] @ '' /></svg>'')
   \<and> re_sub replace_complex_icon
        (''<h2><svg><path d='' @ [CHR 0x27] @ replicate 85 CHR ''A'' @ [CHR 0x27] @ '' /></svg>'')
       = ''<h2><svg><path d='' @ [CHR 0x27] @ replicate 85 CHR ''A'' @ [CHR 0x27] @ '' /></svg>''
   \<and> \<not> contains ''" /></svg>'' (''<h2><svg><path d="'' @ replicate 85 CHR ''A'' @ ''"/></svg>'')
   \<and> re_sub replace_complex_icon (''<h2><svg><path d="'' @ replicate 85 CHR ''A'' @ ''"/></svg>'')
       = ''<h2><svg><path d="'' @ replicate 85 CHR ''A'' @ ''"/></svg>''\<close>
proof -
  note m = pitfall_match
  have "prefix ''<h2><svg'' ''<h2><svg><path d=\"'' \<and> suffix ''d=\"'' ''<h2><svg><path d=\"''"
    using only_exact_token_forms_match
      [where t = "''<h2><svg><path d=\"'' @ replicate 81 CHR ''B'' @ ''\" /></svg><span>PITFALL</span></h2>''"
         and ?g1.0 = "''<h2><svg><path d=\"''" and ?g2.0 = "replicate 81 CHR ''B''"
         and ?g3.0 = "''\" /></svg>''" and r = "''<span>PITFALL</span></h2>''"]
      m
    by blast
  moreover note only_exact_token_forms_match
      [where s = "''<h2 class=\"x\"><svg><path d=\"'' @ replicate 85 CHR ''A'' @ ''\" /></svg>''"]
    only_exact_token_forms_match
      [where s = "''<h2><svg><path d='' @ [CHR 0x27] @ replicate 85 CHR ''A'' @ [CHR 0x27] @ '' /></svg>''"]
    only_exact_token_forms_match
      [where s = "''<h2><svg><path d=\"'' @ replicate 85 CHR ''A'' @ ''\"/></svg>''"]
  ultimately show ?thesis
    using m attributes_no_occurrence single_quotes_no_occurrence no_space_no_occurrence
    by blast
qed

lemma two_files_a:
  \<open>files \<lparr>files = [''a.html'' \<mapsto> ''<h2><svg x="1"><path d="'' @ replicate 85 CHR ''A''
                                 @ ''" /></svg><span>Pitfall</span></h2>'',
                    ''b.html'' \<mapsto> ''<h2><svg x="1"><path d="'' @ replicate 85 CHR ''A''
                                 @ ''" /></svg><span>Pitfall</span></h2>''],
       readonly = {}, writes = [], stdout = []\<rparr> ''a.html''
    = Some (''<h2><svg x="1"><path d="'' @ replicate 85 CHR ''A''
                                 @ ''" /></svg><span>Pitfall</span></h2>'')\<close>
  by simp

lemma two_files_b:
  \<open>files \<lparr>files = [''a.html'' \<mapsto> ''<h2><svg x="1"><path d="'' @ replicate 85 CHR ''A''
                                 @ ''" /></svg><span>Pitfall</span></h2>'',
                    ''b.html'' \<mapsto> ''<h2><svg x="1"><path d="'' @ replicate 85 CHR ''A''
                                 @ ''" /></svg><span>Pitfall</span></h2>''],
       readonly = {}, writes = [], stdout = []\<rparr> ''b.html''
    = Some (''<h2><svg x="1"><path d="'' @ replicate 85 CHR ''A''
                                 @ ''" /></svg><span>Pitfall</span></h2>'')\<close>
  by simp

theorem result_depends_on_content_only_witness:
  \<open>\<exists>st1' st2' st'.
     process_file ''a.html''
       \<lparr>files = [''a.html'' \<mapsto> ''<h2><svg x="1"><path d="'' @ replicate 85 CHR ''A''
                                 @ ''" /></svg><span>Pitfall</span></h2>'',
                    ''b.html'' \<mapsto> ''<h2><svg x="1"><path d="'' @ replicate 85 CHR ''A''
                                 @ ''" /></svg><span>Pitfall</span></h2>''],
       readonly = {}, writes = [], stdout = []\<rparr> = Inr st1'
   \<and> process_file ''b.html''
       \<lparr>files = [''a.html'' \<mapsto> ''<h2><svg x="1"><path d="'' @ replicate 85 CHR ''A''
                                 @ ''" /></svg><span>Pitfall</span></h2>'',
                    ''b.html'' \<mapsto> ''<h2><svg x="1"><path d="'' @ replicate 85 CHR ''A''
                                 @ ''" /></svg><span>Pitfall</span></h2>''],
       readonly = {}, writes = [], stdout = []\<rparr> = Inr st2'
   \<and> files st1' ''a.html'' = Some (''<h2><svg x="1"><path d="'' @ CHECKMARK
                                 @ ''" /></svg><span>Pitfall</span></h2>'')
   \<and> files st2' ''b.html'' = Some (''<h2><svg x="1"><path d="'' @ CHECKMARK
                                 @ ''" /></svg><span>Pitfall</span></h2>'')
   \<and> process_files [''b.html'', ''a.html'']
       \<lparr>files = [''a.html'' \<mapsto> ''<h2><svg x="1"><path d="'' @ replicate 85 CHR ''A''
                                 @ ''" /></svg><span>Pitfall</span></h2>'',
                    ''b.html'' \<mapsto> ''<h2><svg x="1"><path d="'' @ replicate 85 CHR ''A''
                                 @ ''" /></svg><span>Pitfall</span></h2>''],
       readonly = {}, writes = [], stdout = []\<rparr> = Inr st'
   \<and> distinct [''b.html'', ''a.html'']
   \<and> files st' ''a.html'' = Some (''<h2><svg x="1"><path d="'' @ CHECKMARK
                                 @ ''" /></svg><span>Pitfall</span></h2>'')\<close>
proof -
  let ?c = \<open>''<h2><svg x="1"><path d="'' @ replicate 85 CHR ''A'' @ ''" /></svg><span>Pitfall</span></h2>''\<close>
  let ?st = "\<lparr>files = [''a.html'' \<mapsto> ?c, ''b.html'' \<mapsto> ?c],
       readonly = {}, writes = [], stdout = []\<rparr>"
  have ro: "''a.html'' \<notin> readonly ?st" "''b.html'' \<notin> readonly ?st"
    by (simp_all only: state.simps empty_iff not_False_eq_True)
  note a = process_file_changed [OF two_files_a scenario_differs ro(1)]
  note b = process_file_changed [OF two_files_b scenario_differs ro(2)]
  define st2 where "st2 = ?st\<lparr>files := (files ?st)(''b.html'' \<mapsto> re_sub replace_complex_icon ?c),
            writes := writes ?st @ [(''b.html'', re_sub replace_complex_icon ?c)],
            stdout := stdout ?st @ [''Fixed '' @ str (length (re_findall ?c)) @ '' complex icons in '' @ ''b.html'']\<rparr>"
  have b': "process_file ''b.html'' ?st = Inr st2" unfolding st2_def by (rule b)
  have fa: "files st2 ''a.html'' = Some ?c" unfolding st2_def by simp
  have "''a.html'' \<notin> readonly st2" unfolding st2_def by simp
  note a2 = process_file_changed [OF fa scenario_differs this]
  have runs: "process_files [''b.html'', ''a.html''] ?st
     = Inr (st2\<lparr>files := (files st2)(''a.html'' \<mapsto> re_sub replace_complex_icon ?c),
            writes := writes st2 @ [(''a.html'', re_sub replace_complex_icon ?c)],
            stdout := stdout st2 @ [''Fixed '' @ str (length (re_findall ?c)) @ '' complex icons in '' @ ''a.html'']\<rparr>)"
    by (simp only: process_files.simps b' a2 sum.case)
  have d: "distinct [''b.html'', ''a.html'']" by simp
  note t = result_depends_on_content_only
  from t [where ?n1.0 = "''a.html''" and ?n2.0 = "''b.html''" and ?st1.0 = ?st and ?st2.0 = ?st
      and c = ?c] two_files_a two_files_b a b
  have p1: "files (?st\<lparr>files := (files ?st)(''a.html'' \<mapsto> re_sub replace_complex_icon ?c),
            writes := writes ?st @ [(''a.html'', re_sub replace_complex_icon ?c)],
            stdout := stdout ?st @ [''Fixed '' @ str (length (re_findall ?c)) @ '' complex icons in '' @ ''a.html'']\<rparr>) ''a.html''
       = Some (re_sub replace_complex_icon ?c)"
    "files st2 ''b.html'' = Some (re_sub replace_complex_icon ?c)"
    unfolding st2_def by blast+
  from t [where names = "[''b.html'', ''a.html'']" and st = ?st and n = "''a.html''" and d = ?c]
    runs d two_files_a
  have p2: "files (st2\<lparr>files := (files st2)(''a.html'' \<mapsto> re_sub replace_complex_icon ?c),
            writes := writes st2 @ [(''a.html'', re_sub replace_complex_icon ?c)],
            stdout := stdout st2 @ [''Fixed '' @ str (length (re_findall ?c)) @ '' complex icons in '' @ ''a.html'']\<rparr>) ''a.html''
       = Some (if ''a.html'' \<in> set [''b.html'', ''a.html''] then re_sub replace_complex_icon ?c else ?c)"
    by blast
  have mem: "''a.html'' \<in> set [''b.html'', ''a.html'']" by simp
  from p2 have p2': "files (st2\<lparr>files := (files st2)(''a.html'' \<mapsto> re_sub replace_complex_icon ?c),
            writes := writes st2 @ [(''a.html'', re_sub replace_complex_icon ?c)],
            stdout := stdout st2 @ [''Fixed '' @ str (length (re_findall ?c)) @ '' complex icons in '' @ ''a.html'']\<rparr>) ''a.html''
       = Some (re_sub replace_complex_icon ?c)"
    by (simp only: mem if_True)
  show ?thesis
    using a b' p1 p2' runs d unfolding scenario_sub
    by blast
qed

theorem substitution_is_idempotent_witness:
  \<open>files \<lparr>files = [''a.html'' \<mapsto> ''<h2><svg x="1"><path d="'' @ replicate 85 CHR ''A''
                                 @ ''" /></svg><span>Pitfall</span></h2>''],
       readonly = {}, writes = [], stdout = []\<rparr> ''a.html''
     = Some (''<h2><svg x="1"><path d="'' @ replicate 85 CHR ''A'' @ ''" /></svg><span>Pitfall</span></h2>'')
   \<and> process_file ''a.html''
      \<lparr>files = [''a.html'' \<mapsto> ''<h2><svg x="1"><path d="'' @ replicate 85 CHR ''A''
                                 @ ''" /></svg><span>Pitfall</span></h2>''],
       readonly = {}, writes = [], stdout = []\<rparr>
    = Inr \<lparr>files = [''a.html'' \<mapsto> ''<h2><svg x="1"><path d="'' @ CHECKMARK
                                 @ ''" /></svg><span>Pitfall</span></h2>''],
           readonly = {},
           writes = [(''a.html'', ''<h2><svg x="1"><path d="'' @ CHECKMARK
                                 @ ''" /></svg><span>Pitfall</span></h2>'')],
           stdout = [''Fixed 1 complex icons in a.html'']\<rparr>
   \<and> process_file ''a.html''
       \<lparr>files = [''a.html'' \<mapsto> ''<h2><svg x="1"><path d="'' @ CHECKMARK
                                 @ ''" /></svg><span>Pitfall</span></h2>''],
           readonly = {},
           writes = [(''a.html'', ''<h2><svg x="1"><path d="'' @ CHECKMARK
                                 @ ''" /></svg><span>Pitfall</span></h2>'')],
           stdout = [''Fixed 1 complex icons in a.html'']\<rparr>
    = Inr \<lparr>files = [''a.html'' \<mapsto> ''<h2><svg x="1"><path d="'' @ CHECKMARK
                                 @ ''" /></svg><span>Pitfall</span></h2>''],
           readonly = {},
           writes = [(''a.html'', ''<h2><svg x="1"><path d="'' @ CHECKMARK
                                 @ ''" /></svg><span>Pitfall</span></h2>'')],
           stdout = [''Fixed 1 complex icons in a.html'', ''No changes needed in a.html'']\<rparr>
   \<and> re_sub replace_complex_icon
        (''<h2><svg x="1"><path d="'' @ CHECKMARK @ ''" /></svg><span>Pitfall</span></h2>'')
      = ''<h2><svg x="1"><path d="'' @ CHECKMARK @ ''" /></svg><span>Pitfall</span></h2>''\<close>
proof -
  let ?c = \<open>''<h2><svg x="1"><path d="'' @ replicate 85 CHR ''A'' @ ''" /></svg><span>Pitfall</span></h2>''\<close>
  let ?d = \<open>''<h2><svg x="1"><path d="'' @ CHECKMARK @ ''" /></svg><span>Pitfall</span></h2>''\<close>
  let ?st = "\<lparr>files = [''a.html'' \<mapsto> ?c], readonly = {}, writes = [], stdout = []\<rparr>"
  let ?st' = "\<lparr>files = [''a.html'' \<mapsto> ?d], readonly = {}, writes = [(''a.html'', ?d)],
                stdout = [''Fixed 1 complex icons in a.html'']\<rparr>"
  have f: "files ?st ''a.html'' = Some ?c"
    by (simp only: state.simps fun_upd_same)
  note t = substitution_is_idempotent [where s = ?c and st = ?st and name = "''a.html''"
      and c = ?c and st' = ?st']
  from t have "re_sub replace_complex_icon (re_sub replace_complex_icon ?c)
                 = re_sub replace_complex_icon ?c"
    by blast
  then have fixed: "re_sub replace_complex_icon ?d = ?d"
    by (simp only: scenario_sub)
  from t f scenario_run
  have "process_file ''a.html'' ?st'
     = Inr (?st'\<lparr>stdout := stdout ?st' @ [''No changes needed in '' @ ''a.html'']\<rparr>)"
    by blast
  then have "process_file ''a.html'' ?st'
     = Inr \<lparr>files = [''a.html'' \<mapsto> ?d], readonly = {}, writes = [(''a.html'', ?d)],
                stdout = [''Fixed 1 complex icons in a.html'', ''No changes needed in a.html'']\<rparr>"
    by simp
  with f scenario_run fixed show ?thesis by blast
qed

end
